theory Spec2Isabelle
  imports Complex_Main "HOL-Library.Word" "HOL-Library.Sublist" "HOL-Library.FSet"
begin

section \<open>JavaScript strings\<close>

text \<open>
  A JavaScript string is a sequence of UTF-16 code units. The source file
  \<^verbatim>\<open>src/components/LUD16Harvester.tsx\<close> only ever looks at single code units
  (separators, white space, \<^verbatim>\<open>@\<close> and \<^verbatim>\<open>.\<close>), so a string is a list of 16-bit words.
\<close>

type_synonym code_unit = "16 word"
type_synonym jsstring = "code_unit list"

text \<open>An ASCII literal of the source, as code units.\<close>

definition js :: "string \<Rightarrow> jsstring" where
  "js s = map of_char s"

abbreviation LF :: code_unit where "LF \<equiv> 0x0A"
abbreviation COMMA :: code_unit where "COMMA \<equiv> 0x2C"
abbreviation AT :: code_unit where "AT \<equiv> 0x40"
abbreviation DOT :: code_unit where "DOT \<equiv> 0x2E"

text \<open>
  The code units that ECMAScript calls WhiteSpace or LineTerminator. Both
  \<^verbatim>\<open>String.prototype.trim\<close> and the class \<^verbatim>\<open>\s\<close> of a regular expression without the
  \<^verbatim>\<open>u\<close> flag use exactly this set.
\<close>

definition is_whitespace :: "code_unit \<Rightarrow> bool" where
  "is_whitespace c \<longleftrightarrow>
     c = 0x09 \<or> c = 0x0A \<or> c = 0x0B \<or> c = 0x0C \<or> c = 0x0D \<or> c = 0x20 \<or> c = 0xA0 \<or>
     c = 0x1680 \<or> (0x2000 \<le> c \<and> c \<le> 0x200A) \<or> c = 0x2028 \<or> c = 0x2029 \<or>
     c = 0x202F \<or> c = 0x205F \<or> c = 0x3000 \<or> c = 0xFEFF"

text \<open>\<^verbatim>\<open>s.trim()\<close>: white space removed at both ends.\<close>

definition js_trim :: "jsstring \<Rightarrow> jsstring" where
  "js_trim s = rev (dropWhile is_whitespace (rev (dropWhile is_whitespace s)))"

text \<open>
  \<^verbatim>\<open>s.split(re)\<close> for a regular expression \<^verbatim>\<open>re\<close> that matches exactly one code unit
  of a class: the pieces between the separators, empty pieces included. The empty
  string splits into one empty piece.
\<close>

fun js_split :: "(code_unit \<Rightarrow> bool) \<Rightarrow> jsstring \<Rightarrow> jsstring list" where
  "js_split sep [] = [[]]"
| "js_split sep (c # cs) =
     (if sep c then [] # js_split sep cs
      else (case js_split sep cs of
              [] \<Rightarrow> [[c]]
            | t # ts \<Rightarrow> (c # t) # ts))"

text \<open>\<^verbatim>\<open>xs.join(sep)\<close>.\<close>

fun js_join :: "jsstring \<Rightarrow> jsstring list \<Rightarrow> jsstring" where
  "js_join sep [] = []"
| "js_join sep [x] = x"
| "js_join sep (x # y # ys) = x @ sep @ js_join sep (y # ys)"

text \<open>A number in a template literal: its decimal digits.\<close>

fun show_nat :: "nat \<Rightarrow> jsstring" where
  "show_nat n =
     (if n < 10 then [of_nat (48 + n)]
      else show_nat (n div 10) @ [of_nat (48 + n mod 10)])"

declare show_nat.simps [simp del]

section \<open>Configuration\<close>

definition DEFAULT_RELAYS :: jsstring where
  "DEFAULT_RELAYS =
     js_join [LF]
       [js ''wss://relay.damus.io'',
        js ''wss://relay.primal.net'',
        js ''wss://nos.lol'',
        js ''wss://relay.nostr.band'',
        js ''wss://nostr.wine'']"

definition MAX_ADDRESSES :: nat where
  "MAX_ADDRESSES = 21"

definition TIMEOUT_MS :: int where
  "TIMEOUT_MS = 45000"

section \<open>The relay parser\<close>

text \<open>
  \<^verbatim>\<open>input.split(/[\n,]/).map(url => url.trim())
       .filter(url => url.length > 0 && url.startsWith('wss://'))\<close>
\<close>

definition is_separator :: "code_unit \<Rightarrow> bool" where
  "is_separator c \<longleftrightarrow> c = LF \<or> c = COMMA"

definition keep_url :: "jsstring \<Rightarrow> bool" where
  "keep_url u \<longleftrightarrow> length u > 0 \<and> prefix (js ''wss://'') u"

definition parseRelays :: "jsstring \<Rightarrow> jsstring list" where
  "parseRelays input = filter keep_url (map js_trim (js_split is_separator input))"

section \<open>The address validator\<close>

text \<open>
  \<^verbatim>\<open>LUD16_REGEX = /^[^@\s]+@[^@\s]+\.[^@\s]+$/\<close> is a sequence of items, each a
  character class taken once or one or more times, anchored at both ends of the input
  (no flag is set, so \<^verbatim>\<open>^\<close> and \<^verbatim>\<open>$\<close> are the ends of the whole string).
  \<open>matches\<close> is the backtracking matcher for such a sequence: a repeated class first
  tries to take more, then hands over to the rest of the pattern.
\<close>

datatype item = One "code_unit \<Rightarrow> bool" | Many1 "code_unit \<Rightarrow> bool"

fun matches :: "item list \<Rightarrow> jsstring \<Rightarrow> bool" where
  "matches [] s \<longleftrightarrow> s = []"
| "matches (One p # r) [] \<longleftrightarrow> False"
| "matches (One p # r) (c # cs) \<longleftrightarrow> p c \<and> matches r cs"
| "matches (Many1 p # r) [] \<longleftrightarrow> False"
| "matches (Many1 p # r) (c # cs) \<longleftrightarrow> p c \<and> (matches (Many1 p # r) cs \<or> matches r cs)"

definition not_at_or_space :: "code_unit \<Rightarrow> bool" where
  "not_at_or_space c \<longleftrightarrow> c \<noteq> AT \<and> \<not> is_whitespace c"

definition LUD16_REGEX :: "item list" where
  "LUD16_REGEX =
     [Many1 not_at_or_space, One (\<lambda>c. c = AT), Many1 not_at_or_space,
      One (\<lambda>c. c = DOT), Many1 not_at_or_space]"

text \<open>
  The values a lud16 field can hold: what \<^verbatim>\<open>JSON.parse\<close> builds, and \<^verbatim>\<open>undefined\<close> for
  a field that is absent. An object is the list of its own properties, each name once
  (where the JSON text repeats a name, \<^verbatim>\<open>JSON.parse\<close> has kept the last value).
\<close>

datatype js_value =
    JUndefined
  | JNull
  | JBool bool
  | JNumber real
  | JString jsstring
  | JArray "js_value list"
  | JObject "(jsstring \<times> js_value) list"

text \<open>\<^verbatim>\<open>typeof value === 'string' && LUD16_REGEX.test(value)\<close>\<close>

fun isValidLud16 :: "js_value \<Rightarrow> bool" where
  "isValidLud16 (JString s) \<longleftrightarrow> matches LUD16_REGEX s"
| "isValidLud16 _ \<longleftrightarrow> False"

text \<open>
  The shape of an address in the words of the specification: exactly one \<^verbatim>\<open>@\<close>, a
  non-empty local part before it, a domain part after it that contains a \<^verbatim>\<open>.\<close>, and no
  white space anywhere.
\<close>

definition local_part :: "jsstring \<Rightarrow> jsstring" where
  "local_part s = takeWhile (\<lambda>c. c \<noteq> AT) s"

definition domain_part :: "jsstring \<Rightarrow> jsstring" where
  "domain_part s = drop 1 (dropWhile (\<lambda>c. c \<noteq> AT) s)"

definition spec_shape :: "jsstring \<Rightarrow> bool" where
  "spec_shape s \<longleftrightarrow>
     count_list s AT = 1 \<and> local_part s \<noteq> [] \<and> DOT \<in> set (domain_part s) \<and>
     list_all (\<lambda>c. \<not> is_whitespace c) s"

text \<open>
  The shape the regular expression accepts: as above, but the domain part has a \<^verbatim>\<open>.\<close>
  that is neither its first nor its last code unit.
\<close>

definition inner_dot_shape :: "jsstring \<Rightarrow> bool" where
  "inner_dot_shape s \<longleftrightarrow>
     count_list s AT = 1 \<and> local_part s \<noteq> [] \<and>
     DOT \<in> set (butlast (drop 1 (domain_part s))) \<and>
     list_all (\<lambda>c. \<not> is_whitespace c) s"

section \<open>The session\<close>

datatype connection = Connecting | Connected | Failed

record RelayStatus =
  url :: jsstring
  status :: connection
  error :: "jsstring option"

text \<open>
  The calls into the timer interface and the relay pool are kept in a log, in the order
  they are made, so that what a run opened and what it released can be stated.
\<close>

text \<open>
  A timer handle, as \<^verbatim>\<open>setTimeout\<close> and \<^verbatim>\<open>setInterval\<close> return it: a positive number in
  a browser, an object in Node, truthy in both. A ref cell is \<^verbatim>\<open>null\<close> or holds a handle.
\<close>

datatype timer = Timer nat

datatype simple_pool = SimplePool

datatype effect =
    NewSimplePool
  | SetTimeout timer int
  | SetInterval timer int
  | ClearTimeout timer
  | ClearInterval timer
  | SubscribeMany "jsstring list" "nat list" nat
  | PoolClose "jsstring list"

text \<open>
  The component's state: the six \<^verbatim>\<open>useState\<close> cells and the six \<^verbatim>\<open>useRef\<close> cells of
  \<^verbatim>\<open>LUD16Harvester\<close>, and the log of external calls. A state setter is modelled by
  its effect on the state, in call order.
\<close>

record harvester =
  relayInput :: jsstring
  isRunning :: bool
  foundAddresses :: "jsstring list"
  relayStatuses :: "RelayStatus list"
  statusMessage :: jsstring
  timeRemaining :: "int option"
  poolRef :: "simple_pool option"
  addressSetRef :: "jsstring fset"
  timeoutIdRef :: "timer option"
  intervalIdRef :: "timer option"
  subIdRef :: "jsstring option"
  startTimeRef :: "int option"
  effects :: "effect list"

definition initial :: harvester where
  "initial =
     \<lparr>relayInput = DEFAULT_RELAYS, isRunning = False, foundAddresses = [],
      relayStatuses = [], statusMessage = js ''Ready to start'', timeRemaining = None,
      poolRef = None, addressSetRef = {||}, timeoutIdRef = None, intervalIdRef = None,
      subIdRef = None, startTimeRef = None, effects = []\<rparr>"

text \<open>
  The functions of the component are closures made anew at every render. They read the
  refs and call the setters, which are shared, but see the \<^verbatim>\<open>useState\<close> values
  \<^verbatim>\<open>relayInput\<close> and \<^verbatim>\<open>isRunning\<close> as they were at the render that made them.
\<close>

record closure =
  c_relayInput :: jsstring
  c_isRunning :: bool

definition render :: "harvester \<Rightarrow> closure" where
  "render s = \<lparr>c_relayInput = relayInput s, c_isRunning = isRunning s\<rparr>"

text \<open>Truthiness of the ref cells tested by the source.\<close>

definition truthy_string :: "jsstring option \<Rightarrow> bool" where
  "truthy_string r \<longleftrightarrow> (case r of None \<Rightarrow> False | Some x \<Rightarrow> x \<noteq> [])"

subsection \<open>stopHarvesting\<close>

definition stopHarvesting :: "closure \<Rightarrow> harvester \<Rightarrow> harvester" where
  "stopHarvesting cl s =
     (let s1 = s\<lparr>isRunning := False, statusMessage := js ''Stopped''\<rparr>;
          s2 = (case timeoutIdRef s1 of
                  Some t \<Rightarrow> s1\<lparr>effects := effects s1 @ [ClearTimeout t], timeoutIdRef := None\<rparr>
                | None \<Rightarrow> s1);
          s3 = (case intervalIdRef s2 of
                  Some t \<Rightarrow> s2\<lparr>effects := effects s2 @ [ClearInterval t], intervalIdRef := None\<rparr>
                | None \<Rightarrow> s2);
          s4 = (if poolRef s3 \<noteq> None \<and> truthy_string (subIdRef s3)
                then s3\<lparr>effects := effects s3 @ [PoolClose (parseRelays (c_relayInput cl))],
                        poolRef := None, subIdRef := None\<rparr>
                else s3)
      in s4\<lparr>startTimeRef := None, timeRemaining := None\<rparr>)"

subsection \<open>processEvent\<close>

text \<open>
  An event is modelled by what \<^verbatim>\<open>JSON.parse(event.content)\<close> does with its content:
  it throws a SyntaxError or returns a value. Reading \<^verbatim>\<open>.lud16\<close> of \<^verbatim>\<open>null\<close> throws a
  TypeError; of an object it is the property of that name, or \<^verbatim>\<open>undefined\<close>; of any other
  value it is \<^verbatim>\<open>undefined\<close>. Both errors are caught by the \<^verbatim>\<open>catch\<close> of processEvent.
\<close>

datatype js_error = SyntaxError | TypeError

record NostrEvent =
  parsed_content :: "js_error + js_value"

fun get_lud16 :: "js_value \<Rightarrow> js_error + js_value" where
  "get_lud16 JNull = Inl TypeError"
| "get_lud16 JUndefined = Inl TypeError"
| "get_lud16 (JObject props) =
     Inr (case map_of props (js ''lud16'') of None \<Rightarrow> JUndefined | Some v \<Rightarrow> v)"
| "get_lud16 _ = Inr JUndefined"

definition processEvent :: "closure \<Rightarrow> NostrEvent \<Rightarrow> harvester \<Rightarrow> harvester" where
  "processEvent cl event s =
     (case parsed_content event of
        Inl e \<Rightarrow> s
      | Inr metadata \<Rightarrow>
          (case get_lud16 metadata of
             Inl e \<Rightarrow> s
           | Inr lud16 \<Rightarrow>
               if \<not> isValidLud16 lud16 then s
               else (case lud16 of
                       JString a \<Rightarrow>
                         if a |\<in>| addressSetRef s then s
                         else
                           let s1 = s\<lparr>addressSetRef := finsert a (addressSetRef s),
                                      foundAddresses := foundAddresses s @ [a]\<rparr>
                           in if fcard (addressSetRef s1) \<ge> MAX_ADDRESSES
                              then stopHarvesting cl s1
                              else s1
                     | _ \<Rightarrow> s)))"

text \<open>The \<^verbatim>\<open>onevent\<close> callback, called once for each event of a stream, in order.\<close>

fun deliver :: "closure \<Rightarrow> NostrEvent list \<Rightarrow> harvester \<Rightarrow> harvester" where
  "deliver cl [] s = s"
| "deliver cl (e # es) s = deliver cl es (processEvent cl e s)"

subsection \<open>startHarvesting\<close>

text \<open>
  What the platform answers during one call of startHarvesting: the clock, the handles
  of the three timers, and whether \<^verbatim>\<open>pool.subscribeMany\<close> returns or throws (an
  \<^verbatim>\<open>Error\<close> with a message, or some other value). The call is logged in both cases.
\<close>

datatype subscribe_outcome = Subscribed | ThrowsError jsstring | ThrowsOther

record platform =
  date_now :: int
  timeout_timer :: timer
  interval_timer :: timer
  grace_timer :: timer
  subscribe_result :: subscribe_outcome

definition startHarvesting :: "closure \<Rightarrow> platform \<Rightarrow> harvester \<Rightarrow> harvester" where
  "startHarvesting cl p s =
     (let s1 = s\<lparr>addressSetRef := {||}, foundAddresses := [], relayStatuses := [],
                isRunning := True, statusMessage := js ''Starting...'',
                startTimeRef := Some (date_now p)\<rparr>;
          relays = parseRelays (c_relayInput cl)
      in if length relays = 0
         then s1\<lparr>statusMessage := js ''Error: No valid relay URLs provided'',
                 isRunning := False\<rparr>
         else
           let s2 = s1\<lparr>relayStatuses :=
                         map (\<lambda>u. \<lparr>url = u, status = Connecting, error = None\<rparr>) relays\<rparr>;
               s3 = s2\<lparr>effects := effects s2 @ [NewSimplePool], poolRef := Some SimplePool\<rparr>;
               s4 = s3\<lparr>effects := effects s3 @ [SetTimeout (timeout_timer p) TIMEOUT_MS],
                       timeoutIdRef := Some (timeout_timer p)\<rparr>;
               s5 = s4\<lparr>effects := effects s4 @ [SetInterval (interval_timer p) 100],
                       intervalIdRef := Some (interval_timer p)\<rparr>;
               s6 = s5\<lparr>statusMessage :=
                         js ''Listening to '' @ show_nat (length relays) @ js '' relay(s)...'',
                       effects := effects s5 @ [SubscribeMany relays [0] 500]\<rparr>
           in (case subscribe_result p of
                 Subscribed \<Rightarrow>
                   s6\<lparr>subIdRef := Some (js ''active''),
                      effects := effects s6 @ [SetTimeout (grace_timer p) 2000]\<rparr>
               | ThrowsError m \<Rightarrow>
                   stopHarvesting cl (s6\<lparr>statusMessage := js ''Error: '' @ m\<rparr>)
               | ThrowsOther \<Rightarrow>
                   stopHarvesting cl (s6\<lparr>statusMessage := js ''Error: Unknown error''\<rparr>)))"

subsection \<open>The timer callbacks\<close>

text \<open>The one-shot timeout armed by startHarvesting.\<close>

definition timeout_fires :: "closure \<Rightarrow> harvester \<Rightarrow> harvester" where
  "timeout_fires cl s = stopHarvesting cl (s\<lparr>statusMessage := js ''Timeout reached''\<rparr>)"

text \<open>
  The repeating timer, called with the clock's value. A start time of \<^verbatim>\<open>null\<close> or 0 is
  falsy. \<^verbatim>\<open>Math.ceil(remaining / 1000)\<close> is taken of a non-negative whole number of
  milliseconds.
\<close>

definition interval_tick :: "int \<Rightarrow> harvester \<Rightarrow> harvester" where
  "interval_tick now s =
     (case startTimeRef s of
        None \<Rightarrow> s
      | Some start \<Rightarrow>
          if start = 0 then s
          else
            let elapsed = now - start;
                remaining = max 0 (TIMEOUT_MS - elapsed);
                s1 = s\<lparr>timeRemaining := Some ((remaining + 999) div 1000)\<rparr>
            in if remaining \<le> 0
               then (case intervalIdRef s1 of
                       Some t \<Rightarrow>
                         s1\<lparr>effects := effects s1 @ [ClearInterval t], intervalIdRef := None\<rparr>
                     | None \<Rightarrow> s1)
               else s1)"

text \<open>The timer that marks every relay connected two seconds after the subscription.\<close>

definition grace_fires :: "harvester \<Rightarrow> harvester" where
  "grace_fires s = s\<lparr>relayStatuses := map (\<lambda>r. r\<lparr>status := Connected\<rparr>) (relayStatuses s)\<rparr>"

subsection \<open>Unmounting\<close>

text \<open>
  \<^verbatim>\<open>useEffect(() => { return () => { if (isRunning) { stopHarvesting(); } }; }, [])\<close>.
  With the empty dependency list the effect runs once, after the first render, and the
  function it returns is kept until the component unmounts. That function is a closure
  of the first render, whose state is the initial one.
\<close>

definition effect_cleanup :: "closure \<Rightarrow> harvester \<Rightarrow> harvester" where
  "effect_cleanup cl s = (if c_isRunning cl then stopHarvesting cl s else s)"

definition unmount :: "harvester \<Rightarrow> harvester" where
  "unmount s = effect_cleanup (render initial) s"

subsection \<open>The invariant of the two address containers\<close>

definition set_matches_sequence :: "harvester \<Rightarrow> bool" where
  "set_matches_sequence s \<longleftrightarrow>
     fset (addressSetRef s) = set (foundAddresses s) \<and> distinct (foundAddresses s)"

subsection \<open>Example sessions\<close>

text \<open>An event whose content is the JSON object with the one field \<^verbatim>\<open>lud16\<close>.\<close>

definition profile_event :: "jsstring \<Rightarrow> NostrEvent" where
  "profile_event a = \<lparr>parsed_content = Inr (JObject [(js ''lud16'', JString a)])\<rparr>"

definition example_platform :: platform where
  "example_platform =
     \<lparr>date_now = 1000, timeout_timer = Timer 1, interval_timer = Timer 2,
      grace_timer = Timer 3, subscribe_result = Subscribed\<rparr>"

text \<open>The session right after the start button is pressed on the freshly mounted component.\<close>

definition running_example :: harvester where
  "running_example = startHarvesting (render initial) example_platform initial"

text \<open>Twenty-one addresses \<^verbatim>\<open>a@b.c\<close>, \<^verbatim>\<open>b@b.c\<close>, ..., \<^verbatim>\<open>u@b.c\<close>, and the first twenty of them.\<close>

definition example_addresses :: "jsstring list" where
  "example_addresses = map (\<lambda>c. c # js ''@b.c'') (js ''abcdefghijklmnopqrstu'')"

definition almost_full_example :: harvester where
  "almost_full_example =
     deliver (render initial) (map profile_event (take 20 example_addresses)) running_example"

definition full_example :: harvester where
  "full_example =
     deliver (render initial) (map profile_event example_addresses) running_example"

text \<open>A start with an input that has no endpoint, on the freshly mounted component.\<close>

definition empty_input :: closure where
  "empty_input = render (initial\<lparr>relayInput := []\<rparr>)"

definition failed_start_example :: harvester where
  "failed_start_example = startHarvesting empty_input example_platform initial"

section \<open>Properties of the string functions\<close>

lemma js_split_not_Nil: "js_split sep s \<noteq> []"
  by (induction s) (auto split: list.splits)

lemma js_split_append:
  "sep c \<Longrightarrow> js_split sep (a @ c # b) = js_split sep a @ js_split sep b"
proof (induction a)
  case Nil
  then show ?case by simp
next
  case (Cons x a)
  then show ?case
    using js_split_not_Nil [of sep a]
    by (cases "js_split sep a") auto
qed

lemma js_split_single: "\<forall>c\<in>set t. \<not> sep c \<Longrightarrow> js_split sep t = [t]"
  by (induction t) auto

lemma js_trim_decompose:
  "\<exists>l r. t = l @ js_trim t @ r \<and> list_all is_whitespace l \<and> list_all is_whitespace r"
proof -
  let ?l = "takeWhile is_whitespace t"
  let ?m = "dropWhile is_whitespace t"
  let ?r = "rev (takeWhile is_whitespace (rev ?m))"
  have "?m = js_trim t @ ?r"
    unfolding js_trim_def
    by (metis rev_append rev_rev_ident takeWhile_dropWhile_id)
  then have "t = ?l @ js_trim t @ ?r"
    by (metis takeWhile_dropWhile_id)
  moreover have "list_all is_whitespace ?l"
    by (auto simp: list_all_iff dest: set_takeWhileD)
  moreover have "list_all is_whitespace ?r"
    unfolding list_all_iff set_rev by (blast dest: set_takeWhileD)
  ultimately show ?thesis by blast
qed

lemma js_trim_hd: "js_trim t \<noteq> [] \<Longrightarrow> \<not> is_whitespace (hd (js_trim t))"
proof -
  assume ne: "js_trim t \<noteq> []"
  let ?m = "dropWhile is_whitespace t"
  have m: "?m \<noteq> []"
  proof
    assume e: "?m = []"
    have "js_trim t = []" unfolding js_trim_def e by simp
    with ne show False by simp
  qed
  have "js_trim t = rev (dropWhile is_whitespace (rev ?m))" by (simp add: js_trim_def)
  have "\<not> is_whitespace (hd ?m)" using m by (simp add: hd_dropWhile)
  have "\<exists>r. ?m = js_trim t @ r" unfolding js_trim_def
    by (metis rev_append rev_rev_ident takeWhile_dropWhile_id)
  then show ?thesis using ne \<open>\<not> is_whitespace (hd ?m)\<close> by (metis hd_append2)
qed

lemma js_trim_last: "js_trim t \<noteq> [] \<Longrightarrow> \<not> is_whitespace (last (js_trim t))"
proof -
  assume ne: "js_trim t \<noteq> []"
  let ?k = "dropWhile is_whitespace (rev (dropWhile is_whitespace t))"
  have "?k \<noteq> []" using ne by (simp add: js_trim_def)
  then have "\<not> is_whitespace (hd ?k)" by (simp add: hd_dropWhile)
  then show ?thesis using \<open>?k \<noteq> []\<close> by (simp add: js_trim_def last_rev)
qed

lemma matches_One:
  "matches (One p # r) s \<longleftrightarrow> (\<exists>c v. s = c # v \<and> p c \<and> matches r v)"
  by (cases s) auto

lemma matches_Many1:
  "matches (Many1 p # r) s \<longleftrightarrow>
     (\<exists>u v. s = u @ v \<and> u \<noteq> [] \<and> list_all p u \<and> matches r v)"
proof (induction s)
  case Nil
  then show ?case by simp
next
  case (Cons c cs)
  show ?case
  proof
    assume "matches (Many1 p # r) (c # cs)"
    then have pc: "p c" and alt: "matches (Many1 p # r) cs \<or> matches r cs" by auto
    from alt show "\<exists>u v. c # cs = u @ v \<and> u \<noteq> [] \<and> list_all p u \<and> matches r v"
    proof
      assume "matches (Many1 p # r) cs"
      with Cons.IH obtain u v where "cs = u @ v" "list_all p u" "matches r v" by blast
      with pc have "c # cs = (c # u) @ v \<and> c # u \<noteq> [] \<and> list_all p (c # u) \<and> matches r v"
        by simp
      then show ?thesis by blast
    next
      assume "matches r cs"
      with pc have "c # cs = [c] @ cs \<and> [c] \<noteq> [] \<and> list_all p [c] \<and> matches r cs"
        by simp
      then show ?thesis by blast
    qed
  next
    assume "\<exists>u v. c # cs = u @ v \<and> u \<noteq> [] \<and> list_all p u \<and> matches r v"
    then obtain u v where uv: "c # cs = u @ v" "u \<noteq> []" "list_all p u" "matches r v"
      by blast
    then obtain u' where u: "u = c # u'" by (cases u) auto
    with uv have pc: "p c" and cs: "cs = u' @ v" and pu': "list_all p u'" by auto
    show "matches (Many1 p # r) (c # cs)"
    proof (cases "u' = []")
      case True
      with cs uv pc show ?thesis by simp
    next
      case False
      with cs pu' uv(4) Cons.IH have "matches (Many1 p # r) cs" by blast
      with pc show ?thesis by simp
    qed
  qed
qed

lemma matches_LUD16:
  "matches LUD16_REGEX s \<longleftrightarrow>
     (\<exists>l m r. s = l @ AT # m @ DOT # r \<and> l \<noteq> [] \<and> m \<noteq> [] \<and> r \<noteq> [] \<and>
        list_all not_at_or_space l \<and> list_all not_at_or_space m \<and> list_all not_at_or_space r)"
  unfolding LUD16_REGEX_def matches_Many1 matches_One
  by (simp only: matches.simps) (auto, blast)

lemma takeWhile_until:
  "x \<notin> set l \<Longrightarrow> takeWhile (\<lambda>c. c \<noteq> x) (l @ x # t) = l"
  by (induction l) auto

lemma dropWhile_until:
  "x \<notin> set l \<Longrightarrow> dropWhile (\<lambda>c. c \<noteq> x) (l @ x # t) = x # t"
  by (induction l) auto

lemma shape_of_decomposition:
  assumes s: "s = l @ AT # m @ DOT # r"
    and ne: "l \<noteq> []" "m \<noteq> []" "r \<noteq> []"
    and ok: "list_all not_at_or_space l" "list_all not_at_or_space m" "list_all not_at_or_space r"
  shows "inner_dot_shape s"
proof -
  have noat: "AT \<notin> set l" "AT \<notin> set m" "AT \<notin> set r"
    using ok by (auto simp: list_all_iff not_at_or_space_def)
  have nows: "\<forall>c\<in>set l \<union> set m \<union> set r. \<not> is_whitespace c"
    using ok by (auto simp: list_all_iff not_at_or_space_def)
  have cnt: "count_list s AT = 1"
    using noat by (simp add: s)
  have lp: "local_part s = l"
    using noat(1) by (simp add: s local_part_def takeWhile_until)
  have dp: "domain_part s = m @ DOT # r"
    using noat(1) by (simp add: s domain_part_def dropWhile_until)
  obtain x m' where m: "m = x # m'" using ne(2) by (cases m) auto
  have "butlast (drop 1 (domain_part s)) = m' @ DOT # butlast r"
    using ne(3) by (simp add: dp m butlast_append)
  then have dot: "DOT \<in> set (butlast (drop 1 (domain_part s)))" by simp
  have ws: "list_all (\<lambda>c. \<not> is_whitespace c) s"
    using nows by (auto simp: s list_all_iff is_whitespace_def)
  show ?thesis
    unfolding inner_dot_shape_def using cnt lp ne(1) dot ws by simp
qed

lemma decomposition_of_shape:
  assumes "inner_dot_shape s"
  shows "\<exists>l m r. s = l @ AT # m @ DOT # r \<and> l \<noteq> [] \<and> m \<noteq> [] \<and> r \<noteq> [] \<and>
           list_all not_at_or_space l \<and> list_all not_at_or_space m \<and> list_all not_at_or_space r"
proof -
  let ?l = "takeWhile (\<lambda>c. c \<noteq> AT) s"
  let ?rest = "dropWhile (\<lambda>c. c \<noteq> AT) s"
  let ?d = "domain_part s"
  from assms have cnt: "count_list s AT = 1"
    and lne: "?l \<noteq> []"
    and dot: "DOT \<in> set (butlast (drop 1 ?d))"
    and ws: "\<forall>c\<in>set s. \<not> is_whitespace c"
    by (auto simp: inner_dot_shape_def local_part_def list_all_iff)
  have split: "s = ?l @ ?rest" by simp
  have l_noat: "AT \<notin> set ?l" by (auto dest: set_takeWhileD)
  have "AT \<in> set s" using cnt count_list_0_iff [of s AT] by auto
  then have rne: "?rest \<noteq> []" by (auto simp: dropWhile_eq_Nil_conv)
  then have "hd ?rest = AT" using hd_dropWhile [of "\<lambda>c. c \<noteq> AT" s] by simp
  with rne have rest: "?rest = AT # ?d"
    by (cases ?rest) (auto simp: domain_part_def)
  have s_eq: "s = ?l @ AT # ?d" using split rest by metis
  have "count_list s AT = count_list ?l AT + 1 + count_list ?d AT"
    by (subst s_eq) simp
  with cnt have "count_list ?d AT = 0" by simp
  then have d_noat: "AT \<notin> set ?d" by (simp add: count_list_0_iff)
  from dot obtain m' r' where bl: "butlast (drop 1 ?d) = m' @ DOT # r'"
    by (auto dest: split_list)
  then have d1ne: "drop 1 ?d \<noteq> []" by auto
  then obtain x where d: "?d = x # drop 1 ?d" by (cases ?d) auto
  have "drop 1 ?d = butlast (drop 1 ?d) @ [last (drop 1 ?d)]"
    using d1ne by (rule append_butlast_last_id [symmetric])
  with bl obtain z where d1: "drop 1 ?d = m' @ DOT # r' @ [z]" by simp
  obtain m r where m: "m = x # m'" and r: "r = r' @ [z]" by simp
  have d_eq: "?d = m @ DOT # r" using d d1 m r by (metis append_Cons)
  have s_eq2: "s = ?l @ AT # m @ DOT # r" using s_eq d_eq by metis
  have "set ?d = set (m @ DOT # r)" using d_eq by metis
  then have sub: "set m \<subseteq> set ?d" "set r \<subseteq> set ?d" by auto
  have dsub: "set ?d \<subseteq> set s" by (subst (2) s_eq) auto
  have lsub: "set ?l \<subseteq> set s" by (auto dest: set_takeWhileD)
  have "list_all not_at_or_space ?l"
    using l_noat lsub ws by (auto simp: list_all_iff not_at_or_space_def)
  moreover have "list_all not_at_or_space m"
    using d_noat sub(1) dsub ws unfolding list_all_iff not_at_or_space_def by blast
  moreover have "list_all not_at_or_space r"
    using d_noat sub(2) dsub ws unfolding list_all_iff not_at_or_space_def by blast
  moreover have "m \<noteq> []" "r \<noteq> []" using m r by simp_all
  ultimately show ?thesis using s_eq2 lne by blast
qed

lemma matches_LUD16_shape: "matches LUD16_REGEX s \<longleftrightarrow> inner_dot_shape s"
  unfolding matches_LUD16
  using shape_of_decomposition decomposition_of_shape by blast

lemma inner_dot_spec_shape: "inner_dot_shape s \<Longrightarrow> spec_shape s"
  unfolding inner_dot_shape_def spec_shape_def
  by (auto dest!: in_set_butlastD in_set_dropD)

section \<open>The relay parser: what it returns\<close>

lemma parseRelays_member:
  assumes "u \<in> set (parseRelays input)"
  shows "prefix (js ''wss://'') u \<and> \<not> is_whitespace (hd u) \<and> \<not> is_whitespace (last u)"
proof -
  from assms obtain t where u: "u = js_trim t" and k: "keep_url u"
    by (auto simp: parseRelays_def)
  from k have "u \<noteq> []" by (auto simp: keep_url_def)
  with u js_trim_hd [of t] js_trim_last [of t] k show ?thesis
    by (simp add: keep_url_def)
qed

lemma keep_url_prefix: "keep_url u \<longleftrightarrow> prefix (js ''wss://'') u"
  by (auto simp: keep_url_def js_def prefix_def)

text \<open>
  C5. For every input the parser splits at newlines and commas, trims each token and keeps
  the tokens that start with \<^verbatim>\<open>wss://\<close>. Every endpoint returned starts with that prefix and
  has no white space at either end; a token without the prefix is never returned. The
  result of an input with a separator is the result of the part before it followed by the
  result of the part after it, and a token without separators gives itself, trimmed, or
  nothing: so the order of the tokens is kept and a token that occurs twice is returned
  twice. The three endpoints of scenario A come out as given.
\<close>

theorem parseRelays_endpoints:
  "(\<forall>u \<in> set (parseRelays input).
      prefix (js ''wss://'') u \<and> \<not> is_whitespace (hd u) \<and> \<not> is_whitespace (last u))
   \<and> (\<not> prefix (js ''wss://'') v \<longrightarrow> v \<notin> set (parseRelays input))
   \<and> (is_separator c \<longrightarrow> parseRelays (a @ c # b) = parseRelays a @ parseRelays b)
   \<and> ((\<forall>x \<in> set t. \<not> is_separator x) \<longrightarrow>
        parseRelays t = (if prefix (js ''wss://'') (js_trim t) then [js_trim t] else [])
        \<and> (\<exists>l r. t = l @ js_trim t @ r \<and> list_all is_whitespace l \<and> list_all is_whitespace r))
   \<and> parseRelays (js ''wss://a.example'' @ [LF] @ js ''wss://b.example,wss://c.example'')
       = [js ''wss://a.example'', js ''wss://b.example'', js ''wss://c.example'']"
proof (intro conjI)
  show "\<forall>u \<in> set (parseRelays input).
      prefix (js ''wss://'') u \<and> \<not> is_whitespace (hd u) \<and> \<not> is_whitespace (last u)"
    using parseRelays_member by blast
  show "\<not> prefix (js ''wss://'') v \<longrightarrow> v \<notin> set (parseRelays input)"
    using parseRelays_member by blast
  show "is_separator c \<longrightarrow> parseRelays (a @ c # b) = parseRelays a @ parseRelays b"
    by (simp add: parseRelays_def js_split_append)
  show "(\<forall>x \<in> set t. \<not> is_separator x) \<longrightarrow>
        parseRelays t = (if prefix (js ''wss://'') (js_trim t) then [js_trim t] else [])
        \<and> (\<exists>l r. t = l @ js_trim t @ r \<and> list_all is_whitespace l \<and> list_all is_whitespace r)"
    using js_trim_decompose [of t]
    by (simp add: parseRelays_def js_split_single keep_url_prefix)
  show "parseRelays (js ''wss://a.example'' @ [LF] @ js ''wss://b.example,wss://c.example'')
       = [js ''wss://a.example'', js ''wss://b.example'', js ''wss://c.example'']"
    by (simp add: parseRelays_def js_def is_separator_def js_trim_def is_whitespace_def
        keep_url_def)
qed

text \<open>The theorem at an input with white space, a token without the prefix and a duplicate.\<close>

theorem parseRelays_endpoints_witness:
  "js ''wss://a.example'' \<in> set (parseRelays (js '' wss://a.example ,x, wss://a.example''))
   \<and> prefix (js ''wss://'') (js ''wss://a.example'')
   \<and> \<not> is_whitespace (hd (js ''wss://a.example''))
   \<and> \<not> is_whitespace (last (js ''wss://a.example''))
   \<and> \<not> prefix (js ''wss://'') (js ''x'')
   \<and> js ''x'' \<notin> set (parseRelays (js '' wss://a.example ,x, wss://a.example''))
   \<and> is_separator COMMA
   \<and> parseRelays (js '' wss://a.example '' @ COMMA # js ''x, wss://a.example'')
       = parseRelays (js '' wss://a.example '') @ parseRelays (js ''x, wss://a.example'')
   \<and> parseRelays (js '' wss://a.example '') = [js ''wss://a.example'']"
proof -
  let ?input = "js '' wss://a.example ,x, wss://a.example''"
  have ev: "parseRelays ?input = [js ''wss://a.example'', js ''wss://a.example'']"
    by (simp add: parseRelays_def js_def is_separator_def js_trim_def is_whitespace_def
        keep_url_def)
  have h1: "js ''wss://a.example'' \<in> set (parseRelays ?input)"
    by (simp add: ev)
  have h2: "\<not> prefix (js ''wss://'') (js ''x'')"
    by (simp add: js_def)
  have h3: "is_separator COMMA"
    by (simp add: is_separator_def)
  have h4: "\<forall>x \<in> set (js '' wss://a.example ''). \<not> is_separator x"
    by (simp add: js_def is_separator_def)
  have tr: "js_trim (js '' wss://a.example '') = js ''wss://a.example''"
    by (simp add: js_def js_trim_def is_whitespace_def)
  note inst = parseRelays_endpoints [of ?input "js ''x''" COMMA "js '' wss://a.example ''"
      "js ''x, wss://a.example''" "js '' wss://a.example ''"]
  from inst h1 have c1: "prefix (js ''wss://'') (js ''wss://a.example'')
      \<and> \<not> is_whitespace (hd (js ''wss://a.example''))
      \<and> \<not> is_whitespace (last (js ''wss://a.example''))" by blast
  from inst h2 have c2: "js ''x'' \<notin> set (parseRelays ?input)" by blast
  from inst h3 have c3: "parseRelays (js '' wss://a.example '' @ COMMA # js ''x, wss://a.example'')
       = parseRelays (js '' wss://a.example '') @ parseRelays (js ''x, wss://a.example'')"
    by blast
  from inst h4 have "parseRelays (js '' wss://a.example '')
      = (if prefix (js ''wss://'') (js_trim (js '' wss://a.example ''))
         then [js_trim (js '' wss://a.example '')] else [])" by blast
  then have c4: "parseRelays (js '' wss://a.example '') = [js ''wss://a.example'']"
    by (simp add: tr) (simp add: js_def)
  from h1 h2 h3 c1 c2 c3 c4 show ?thesis by blast
qed

section \<open>The address validator: what it accepts\<close>

text \<open>
  C2, as the code has it. A value is accepted if and only if it is a string with exactly
  one \<^verbatim>\<open>@\<close>, a non-empty local part, no white space, and a domain part with a \<^verbatim>\<open>.\<close> that is
  neither the first nor the last code unit of the domain. Every accepted string has the
  shape the specification describes. An event whose lud16 value is not accepted leaves
  the session as it was; \<^verbatim>\<open>not-an-address\<close> is not accepted.
\<close>

theorem isValidLud16_shape:
  "(isValidLud16 v \<longleftrightarrow> (\<exists>a. v = JString a \<and> inner_dot_shape a))
   \<and> (inner_dot_shape a \<longrightarrow> spec_shape a)
   \<and> (parsed_content event = Inr metadata \<and> get_lud16 metadata = Inr v \<and> \<not> isValidLud16 v
        \<longrightarrow> processEvent cl event s = s)
   \<and> \<not> isValidLud16 (JString (js ''not-an-address''))"
proof (intro conjI)
  show "isValidLud16 v \<longleftrightarrow> (\<exists>a. v = JString a \<and> inner_dot_shape a)"
    by (cases v) (simp_all add: matches_LUD16_shape)
  show "inner_dot_shape a \<longrightarrow> spec_shape a"
    using inner_dot_spec_shape by blast
  show "parsed_content event = Inr metadata \<and> get_lud16 metadata = Inr v \<and> \<not> isValidLud16 v
        \<longrightarrow> processEvent cl event s = s"
    by (simp add: processEvent_def)
  show "\<not> isValidLud16 (JString (js ''not-an-address''))"
    by (simp add: js_def LUD16_REGEX_def not_at_or_space_def is_whitespace_def)
qed

text \<open>
  The theorem at \<^verbatim>\<open>alice@example.com\<close>, which is accepted, and at scenario D, an event with
  \<^verbatim>\<open>not-an-address\<close> delivered to the example session.
\<close>

theorem isValidLud16_shape_witness:
  "inner_dot_shape (js ''alice@example.com'')
   \<and> spec_shape (js ''alice@example.com'')
   \<and> isValidLud16 (JString (js ''alice@example.com''))
   \<and> parsed_content (profile_event (js ''not-an-address''))
       = Inr (JObject [(js ''lud16'', JString (js ''not-an-address''))])
   \<and> get_lud16 (JObject [(js ''lud16'', JString (js ''not-an-address''))])
       = Inr (JString (js ''not-an-address''))
   \<and> \<not> isValidLud16 (JString (js ''not-an-address''))
   \<and> processEvent (render initial) (profile_event (js ''not-an-address'')) running_example
       = running_example"
proof -
  have shape: "inner_dot_shape (js ''alice@example.com'')"
    by (simp add: js_def inner_dot_shape_def local_part_def domain_part_def is_whitespace_def)
  have content: "parsed_content (profile_event (js ''not-an-address''))
       = Inr (JObject [(js ''lud16'', JString (js ''not-an-address''))])"
    and field: "get_lud16 (JObject [(js ''lud16'', JString (js ''not-an-address''))])
       = Inr (JString (js ''not-an-address''))"
    by (simp_all add: profile_event_def)
  note accepted = isValidLud16_shape
    [where v = "JString (js ''alice@example.com'')" and a = "js ''alice@example.com''"]
  note rejected = isValidLud16_shape
    [where v = "JString (js ''not-an-address'')"
       and event = "profile_event (js ''not-an-address'')"
       and metadata = "JObject [(js ''lud16'', JString (js ''not-an-address''))]"
       and cl = "render initial" and s = running_example]
  from accepted shape have "spec_shape (js ''alice@example.com'')"
    and "isValidLud16 (JString (js ''alice@example.com''))"
    by blast+
  moreover from rejected have no: "\<not> isValidLud16 (JString (js ''not-an-address''))"
    by blast
  moreover from rejected content field no
  have "processEvent (render initial) (profile_event (js ''not-an-address'')) running_example
       = running_example"
    by blast
  ultimately show ?thesis using shape content field by blast
qed

text \<open>
  C2, as the specification words it, fails: \<^verbatim>\<open>a@.com\<close> has one \<^verbatim>\<open>@\<close>, a non-empty local part,
  a domain part containing a \<^verbatim>\<open>.\<close> and no white space, and the validator rejects it.
\<close>

theorem lud16_leading_dot_counterexample:
  "spec_shape (js ''a@.com'') \<and> \<not> isValidLud16 (JString (js ''a@.com''))"
  by (simp add: js_def spec_shape_def local_part_def domain_part_def is_whitespace_def
      LUD16_REGEX_def not_at_or_space_def)

section \<open>Facts about the session functions\<close>

lemma stop_fields:
  "isRunning (stopHarvesting cl s) = False"
  "statusMessage (stopHarvesting cl s) = js ''Stopped''"
  "addressSetRef (stopHarvesting cl s) = addressSetRef s"
  "foundAddresses (stopHarvesting cl s) = foundAddresses s"
  "timeoutIdRef (stopHarvesting cl s) = None"
  "intervalIdRef (stopHarvesting cl s) = None"
  "startTimeRef (stopHarvesting cl s) = None"
  "timeRemaining (stopHarvesting cl s) = None"
  by (simp_all add: stopHarvesting_def Let_def split: option.splits)

lemma stop_ignores_message:
  "stopHarvesting cl (s\<lparr>statusMessage := m\<rparr>) = stopHarvesting cl s"
  by (simp add: stopHarvesting_def Let_def split: option.splits)

lemma start_addresses:
  "addressSetRef (startHarvesting cl p s) = {||}"
  "foundAddresses (startHarvesting cl p s) = []"
  by (simp_all add: startHarvesting_def Let_def stop_fields split: subscribe_outcome.splits)

lemma start_ok:
  assumes "parseRelays (c_relayInput cl) \<noteq> []" "subscribe_result p = Subscribed"
  shows "startHarvesting cl p s =
    s\<lparr>addressSetRef := {||}, foundAddresses := [],
      relayStatuses :=
        map (\<lambda>u. \<lparr>url = u, status = Connecting, error = None\<rparr>) (parseRelays (c_relayInput cl)),
      isRunning := True,
      statusMessage :=
        js ''Listening to '' @ show_nat (length (parseRelays (c_relayInput cl)))
          @ js '' relay(s)...'',
      startTimeRef := Some (date_now p),
      poolRef := Some SimplePool, timeoutIdRef := Some (timeout_timer p),
      intervalIdRef := Some (interval_timer p), subIdRef := Some (js ''active''),
      effects := effects s @
        [NewSimplePool, SetTimeout (timeout_timer p) TIMEOUT_MS,
         SetInterval (interval_timer p) 100,
         SubscribeMany (parseRelays (c_relayInput cl)) [0] 500,
         SetTimeout (grace_timer p) 2000]\<rparr>"
  using assms unfolding startHarvesting_def Let_def by simp

lemma start_empty:
  assumes "parseRelays (c_relayInput cl) = []"
  shows "startHarvesting cl p s =
    s\<lparr>addressSetRef := {||}, foundAddresses := [], relayStatuses := [],
      isRunning := False, statusMessage := js ''Error: No valid relay URLs provided'',
      startTimeRef := Some (date_now p)\<rparr>"
  using assms unfolding startHarvesting_def Let_def by simp

lemma processEvent_result:
  "processEvent cl e s = s \<or>
   (\<exists>a. isValidLud16 (JString a) \<and> a |\<notin>| addressSetRef s \<and>
      processEvent cl e s =
        (if MAX_ADDRESSES \<le> fcard (finsert a (addressSetRef s))
         then stopHarvesting cl
                (s\<lparr>addressSetRef := finsert a (addressSetRef s),
                   foundAddresses := foundAddresses s @ [a]\<rparr>)
         else s\<lparr>addressSetRef := finsert a (addressSetRef s),
                 foundAddresses := foundAddresses s @ [a]\<rparr>))"
  unfolding processEvent_def Let_def
  by (auto split: sum.splits js_value.splits)

lemma processEvent_carrying:
  assumes "parsed_content e = Inr m" "get_lud16 m = Inr (JString a)" "isValidLud16 (JString a)"
  shows "processEvent cl e s =
     (if a |\<in>| addressSetRef s then s
      else if MAX_ADDRESSES \<le> fcard (finsert a (addressSetRef s))
         then stopHarvesting cl
                (s\<lparr>addressSetRef := finsert a (addressSetRef s),
                   foundAddresses := foundAddresses s @ [a]\<rparr>)
         else s\<lparr>addressSetRef := finsert a (addressSetRef s),
                 foundAddresses := foundAddresses s @ [a]\<rparr>)"
  using assms unfolding processEvent_def Let_def by simp

lemma profile_event_carries:
  "parsed_content (profile_event a) = Inr (JObject [(js ''lud16'', JString a)])"
  "get_lud16 (JObject [(js ''lud16'', JString a)]) = Inr (JString a)"
  by (simp_all add: profile_event_def)

lemma processEvent_grows:
  "addressSetRef s |\<subseteq>| addressSetRef (processEvent cl e s)
   \<and> prefix (foundAddresses s) (foundAddresses (processEvent cl e s))"
  using processEvent_result [of cl e s] by (auto simp: stop_fields)

lemma deliver_grows:
  "addressSetRef s |\<subseteq>| addressSetRef (deliver cl evs s)
   \<and> prefix (foundAddresses s) (foundAddresses (deliver cl evs s))"
proof (induction evs arbitrary: s)
  case Nil
  then show ?case by simp
next
  case (Cons e evs)
  from processEvent_grows [of s cl e] Cons.IH [of "processEvent cl e s"]
  show ?case by (auto intro: prefix_order.trans)
qed

lemma deliver_append: "deliver cl (xs @ ys) s = deliver cl ys (deliver cl xs s)"
  by (induction xs arbitrary: s) auto





lemma processEvent_fields:
  obtains (same) "processEvent cl e s = s"
  | (new) a where "a |\<notin>| addressSetRef s" "isValidLud16 (JString a)"
      "addressSetRef (processEvent cl e s) = finsert a (addressSetRef s)"
      "foundAddresses (processEvent cl e s) = foundAddresses s @ [a]"
proof -
  from processEvent_result [of cl e s] show ?thesis
  proof
    assume "processEvent cl e s = s"
    then show ?thesis by (rule same)
  next
    assume "\<exists>a. isValidLud16 (JString a) \<and> a |\<notin>| addressSetRef s \<and>
      processEvent cl e s =
        (if MAX_ADDRESSES \<le> fcard (finsert a (addressSetRef s))
         then stopHarvesting cl
                (s\<lparr>addressSetRef := finsert a (addressSetRef s),
                   foundAddresses := foundAddresses s @ [a]\<rparr>)
         else s\<lparr>addressSetRef := finsert a (addressSetRef s),
                 foundAddresses := foundAddresses s @ [a]\<rparr>)"
    then obtain a where a: "isValidLud16 (JString a)" "a |\<notin>| addressSetRef s"
      and eq: "processEvent cl e s =
        (if MAX_ADDRESSES \<le> fcard (finsert a (addressSetRef s))
         then stopHarvesting cl
                (s\<lparr>addressSetRef := finsert a (addressSetRef s),
                   foundAddresses := foundAddresses s @ [a]\<rparr>)
         else s\<lparr>addressSetRef := finsert a (addressSetRef s),
                 foundAddresses := foundAddresses s @ [a]\<rparr>)"
      by blast
    have "addressSetRef (processEvent cl e s) = finsert a (addressSetRef s)"
      "foundAddresses (processEvent cl e s) = foundAddresses s @ [a]"
      unfolding eq by (simp_all add: stop_fields)
    with a show ?thesis by (intro new)
  qed
qed

lemma set_matches_sequence_processEvent:
  assumes "set_matches_sequence s"
  shows "set_matches_sequence (processEvent cl e s)"
proof (cases rule: processEvent_fields [of cl e s])
  case same
  with assms show ?thesis by simp
next
  case (new a)
  from assms have "fset (addressSetRef s) = set (foundAddresses s)"
    and "distinct (foundAddresses s)"
    by (simp_all add: set_matches_sequence_def)
  with new(1) show ?thesis
    unfolding set_matches_sequence_def new(3,4) by simp
qed

lemma set_matches_sequence_deliver:
  assumes "set_matches_sequence s"
  shows "set_matches_sequence (deliver cl evs s)"
  using assms
  by (induction evs arbitrary: s) (auto intro: set_matches_sequence_processEvent)

lemma processEvent_carrying_member:
  assumes "parsed_content e = Inr m" "get_lud16 m = Inr (JString a)" "isValidLud16 (JString a)"
  shows "a |\<in>| addressSetRef (processEvent cl e s)"
  by (simp add: processEvent_carrying [OF assms] stop_fields)

lemma count_list_distinct: "distinct xs \<Longrightarrow> a \<in> set xs \<Longrightarrow> count_list xs a = 1"
  by (induction xs) auto

lemma fcard_fset_of_list_distinct: "distinct xs \<Longrightarrow> fcard (fset_of_list xs) = length xs"
  by (induction xs) (auto simp: fcard_finsert_if fset_of_list_elem fcard_fempty)

lemma deliver_new_addresses:
  assumes "\<forall>a\<in>set as. isValidLud16 (JString a)" "distinct as"
    "\<forall>a\<in>set as. a |\<notin>| addressSetRef s"
    "fcard (addressSetRef s) + length as < MAX_ADDRESSES"
  shows "deliver cl (map profile_event as) s =
           s\<lparr>addressSetRef := addressSetRef s |\<union>| fset_of_list as,
             foundAddresses := foundAddresses s @ as\<rparr>"
  using assms
proof (induction as arbitrary: s)
  case Nil
  then show ?case by simp
next
  case (Cons a as)
  let ?s1 = "s\<lparr>addressSetRef := finsert a (addressSetRef s),
               foundAddresses := foundAddresses s @ [a]\<rparr>"
  have card: "fcard (finsert a (addressSetRef s)) = Suc (fcard (addressSetRef s))"
    using Cons.prems(3) by (simp add: fcard_finsert_if)
  have step: "processEvent cl (profile_event a) s = ?s1"
    using Cons.prems card
    by (simp add: processEvent_carrying [OF profile_event_carries])
  have "deliver cl (map profile_event as) ?s1 =
          ?s1\<lparr>addressSetRef := addressSetRef ?s1 |\<union>| fset_of_list as,
              foundAddresses := foundAddresses ?s1 @ as\<rparr>"
    using Cons.prems card by (intro Cons.IH) auto
  with step show ?case by simp
qed

subsection \<open>The example sessions, evaluated\<close>

lemma parse_default:
  "parseRelays DEFAULT_RELAYS =
     [js ''wss://relay.damus.io'', js ''wss://relay.primal.net'', js ''wss://nos.lol'',
      js ''wss://relay.nostr.band'', js ''wss://nostr.wine'']"
  by (simp add: DEFAULT_RELAYS_def parseRelays_def js_def is_separator_def js_trim_def
      is_whitespace_def keep_url_def)

lemma running_example_fields:
  "isRunning running_example"
  "addressSetRef running_example = {||}"
  "foundAddresses running_example = []"
  "timeoutIdRef running_example = Some (Timer 1)"
  "intervalIdRef running_example = Some (Timer 2)"
  "poolRef running_example = Some SimplePool"
  "subIdRef running_example = Some (js ''active'')"
proof -
  have a: "parseRelays (c_relayInput (render initial)) \<noteq> []"
    by (simp add: render_def initial_def parse_default)
  have b: "subscribe_result example_platform = Subscribed"
    by (simp add: example_platform_def)
  note eq = start_ok [OF a b, of initial]
  show "isRunning running_example"
    "addressSetRef running_example = {||}"
    "foundAddresses running_example = []"
    "timeoutIdRef running_example = Some (Timer 1)"
    "intervalIdRef running_example = Some (Timer 2)"
    "poolRef running_example = Some SimplePool"
    "subIdRef running_example = Some (js ''active'')"
    unfolding running_example_def eq by (simp_all add: example_platform_def)
qed

lemma valid_example: "matches LUD16_REGEX (c # js ''@b.c'') \<longleftrightarrow> not_at_or_space c"
  by (simp add: js_def LUD16_REGEX_def not_at_or_space_def is_whitespace_def)

lemma example_addresses_valid: "\<forall>a\<in>set example_addresses. isValidLud16 (JString a)"
proof -
  have "\<forall>c\<in>set (js ''abcdefghijklmnopqrstu''). not_at_or_space c"
    by (simp add: js_def not_at_or_space_def is_whitespace_def)
  then show ?thesis
    unfolding example_addresses_def by (simp add: valid_example)
qed

lemma example_addresses_distinct: "distinct example_addresses"
  unfolding example_addresses_def
  by (simp add: distinct_map inj_on_def) (simp add: js_def)

lemma example_addresses_length: "length example_addresses = 21"
  by (simp add: example_addresses_def js_def)

lemma example_addresses_split:
  "example_addresses = take 20 example_addresses @ [js ''u@b.c'']"
  by (simp add: example_addresses_def js_def)

lemma almost_full_example_eq:
  "almost_full_example =
     running_example\<lparr>addressSetRef := fset_of_list (take 20 example_addresses),
                     foundAddresses := take 20 example_addresses\<rparr>"
proof -
  have "deliver (render initial) (map profile_event (take 20 example_addresses)) running_example
        = running_example
            \<lparr>addressSetRef := addressSetRef running_example
                 |\<union>| fset_of_list (take 20 example_addresses),
             foundAddresses := foundAddresses running_example @ take 20 example_addresses\<rparr>"
  proof (rule deliver_new_addresses)
    show "\<forall>a\<in>set (take 20 example_addresses). isValidLud16 (JString a)"
      using example_addresses_valid by (blast dest: in_set_takeD)
    show "distinct (take 20 example_addresses)"
      using example_addresses_distinct by simp
    show "\<forall>a\<in>set (take 20 example_addresses). a |\<notin>| addressSetRef running_example"
      by (simp add: running_example_fields)
    show "fcard (addressSetRef running_example) + length (take 20 example_addresses)
            < MAX_ADDRESSES"
      by (simp add: running_example_fields example_addresses_length MAX_ADDRESSES_def
          fcard_fempty)
  qed
  then show ?thesis
    by (simp add: almost_full_example_def running_example_fields)
qed

lemma almost_full_example_fields:
  "isRunning almost_full_example"
  "fcard (addressSetRef almost_full_example) = 20"
  "js ''u@b.c'' |\<notin>| addressSetRef almost_full_example"
  "js ''v@b.c'' |\<notin>| addressSetRef almost_full_example"
proof -
  show "isRunning almost_full_example"
    by (simp add: almost_full_example_eq running_example_fields)
  show "fcard (addressSetRef almost_full_example) = 20"
    using example_addresses_distinct
    by (simp add: almost_full_example_eq fcard_fset_of_list_distinct example_addresses_length)
  have "js ''u@b.c'' \<notin> set (take 20 example_addresses)"
    using example_addresses_distinct
    by (subst (asm) example_addresses_split) simp
  then show "js ''u@b.c'' |\<notin>| addressSetRef almost_full_example"
    by (simp add: almost_full_example_eq fset_of_list_elem)
  have "js ''v@b.c'' \<notin> set example_addresses"
    by (simp add: example_addresses_def js_def)
  then have "js ''v@b.c'' \<notin> set (take 20 example_addresses)"
    by (blast dest: in_set_takeD)
  then show "js ''v@b.c'' |\<notin>| addressSetRef almost_full_example"
    by (simp add: almost_full_example_eq fset_of_list_elem)
qed

lemma full_example_eq:
  "full_example = processEvent (render initial) (profile_event (js ''u@b.c'')) almost_full_example"
  unfolding full_example_def almost_full_example_def
  by (subst example_addresses_split) (simp add: deliver_append)

lemma valid_u: "isValidLud16 (JString (js ''u@b.c''))"
  by (simp add: js_def LUD16_REGEX_def not_at_or_space_def is_whitespace_def)


lemma full_example_stopped:
  "full_example =
     stopHarvesting (render initial)
       (almost_full_example
          \<lparr>addressSetRef := finsert (js ''u@b.c'') (addressSetRef almost_full_example),
           foundAddresses := foundAddresses almost_full_example @ [js ''u@b.c'']\<rparr>)"
  unfolding full_example_eq
  by (simp add: processEvent_carrying [OF profile_event_carries valid_u]
      almost_full_example_fields fcard_finsert_if MAX_ADDRESSES_def)

lemma full_example_fields:
  "\<not> isRunning full_example"
  "fcard (addressSetRef full_example) = 21"
  "js ''v@b.c'' |\<notin>| addressSetRef full_example"
  unfolding full_example_stopped
  using almost_full_example_fields
  by (simp_all add: stop_fields fcard_finsert_if) (simp add: js_def)

section \<open>The discovered addresses during a session\<close>










section \<open>Delivering an address twice\<close>

text \<open>
  C6. Two events that carry the same valid address, with any events before, between and
  after them, leave exactly one entry for it in the discovered sequence, and it is in the
  set. If the address was new, the two events alone add exactly this one address to the
  sequence and to the set.
\<close>

theorem same_address_twice_once:
  assumes "set_matches_sequence s"
    and "isValidLud16 (JString a)"
    and "parsed_content e1 = Inr m1" "get_lud16 m1 = Inr (JString a)"
    and "parsed_content e2 = Inr m2" "get_lud16 m2 = Inr (JString a)"
  shows "count_list (foundAddresses (deliver cl (pre @ e1 # mid @ e2 # post) s)) a = 1
     \<and> a |\<in>| addressSetRef (deliver cl (pre @ e1 # mid @ e2 # post) s)
     \<and> (a |\<notin>| addressSetRef s \<longrightarrow>
          foundAddresses (deliver cl [e1, e2] s) = foundAddresses s @ [a]
          \<and> addressSetRef (deliver cl [e1, e2] s) = finsert a (addressSetRef s))"
proof (intro conjI impI)
  let ?evs = "pre @ e1 # mid @ e2 # post"
  let ?s1 = "processEvent cl e1 (deliver cl pre s)"
  have "a |\<in>| addressSetRef ?s1"
    using assms(2-4) by (rule processEvent_carrying_member [rotated 2])
  moreover have "deliver cl ?evs s = deliver cl (mid @ e2 # post) ?s1"
    by (simp add: deliver_append)
  ultimately show mem: "a |\<in>| addressSetRef (deliver cl ?evs s)"
    using deliver_grows [of ?s1 cl "mid @ e2 # post"] by auto
  have inv: "set_matches_sequence (deliver cl ?evs s)"
    using assms(1) by (rule set_matches_sequence_deliver)
  with mem have "distinct (foundAddresses (deliver cl ?evs s))"
    and "a \<in> set (foundAddresses (deliver cl ?evs s))"
    by (auto simp: set_matches_sequence_def)
  then show "count_list (foundAddresses (deliver cl ?evs s)) a = 1"
    by (rule count_list_distinct)
next
  assume new: "a |\<notin>| addressSetRef s"
  let ?s1 = "processEvent cl e1 s"
  have f1: "addressSetRef ?s1 = finsert a (addressSetRef s)"
    "foundAddresses ?s1 = foundAddresses s @ [a]"
    using new by (simp_all add: processEvent_carrying [OF assms(3,4,2)] stop_fields)
  have "processEvent cl e2 ?s1 = ?s1"
    by (simp add: processEvent_carrying [OF assms(5,6,2)] f1)
  with f1 show "foundAddresses (deliver cl [e1, e2] s) = foundAddresses s @ [a]"
    and "addressSetRef (deliver cl [e1, e2] s) = finsert a (addressSetRef s)"
    by simp_all
qed

lemma valid_alice: "isValidLud16 (JString (js ''alice@example.com''))"
  by (simp add: js_def LUD16_REGEX_def not_at_or_space_def is_whitespace_def)

lemma running_example_matches: "set_matches_sequence running_example"
  by (simp add: set_matches_sequence_def running_example_fields)

text \<open>
  Scenario C on the example session: two events with \<^verbatim>\<open>alice@example.com\<close> add this one
  address.
\<close>

theorem same_address_twice_once_witness:
  "set_matches_sequence running_example
   \<and> isValidLud16 (JString (js ''alice@example.com''))
   \<and> js ''alice@example.com'' |\<notin>| addressSetRef running_example
   \<and> count_list
        (foundAddresses
           (deliver (render initial)
              [profile_event (js ''alice@example.com''), profile_event (js ''alice@example.com'')]
              running_example))
        (js ''alice@example.com'') = 1
   \<and> foundAddresses
        (deliver (render initial)
           [profile_event (js ''alice@example.com''), profile_event (js ''alice@example.com'')]
           running_example) = [js ''alice@example.com'']
   \<and> addressSetRef
        (deliver (render initial)
           [profile_event (js ''alice@example.com''), profile_event (js ''alice@example.com'')]
           running_example) = {|js ''alice@example.com''|}"
proof -
  have new: "js ''alice@example.com'' |\<notin>| addressSetRef running_example"
    by (simp add: running_example_fields)
  note inst = same_address_twice_once
    [OF running_example_matches valid_alice profile_event_carries profile_event_carries,
     of "render initial" "[]" "[]" "[]"]
  from inst new running_example_matches valid_alice show ?thesis
    by (simp add: running_example_fields)
qed

lemma parse_empty: "parseRelays [] = []"
  by (simp add: parseRelays_def keep_url_def js_trim_def)

lemma empty_input_no_endpoints: "parseRelays (c_relayInput empty_input) = []"
  by (simp add: empty_input_def render_def parse_empty)

section \<open>The set and the sequence agree\<close>

text \<open>
  C9. The address set and the address sequence hold the same elements and the sequence
  has no duplicates: this holds of the initial state and after every start, and it is
  kept by event processing, by stop, by the timer callbacks and by unmounting.
\<close>

theorem set_matches_sequence_invariant:
  "set_matches_sequence initial
   \<and> set_matches_sequence (startHarvesting cl p s)
   \<and> (set_matches_sequence s \<longrightarrow>
        set_matches_sequence (processEvent cl e s)
        \<and> set_matches_sequence (stopHarvesting cl s)
        \<and> set_matches_sequence (timeout_fires cl s)
        \<and> set_matches_sequence (interval_tick now s)
        \<and> set_matches_sequence (grace_fires s)
        \<and> set_matches_sequence (unmount s))"
proof (intro conjI impI)
  show "set_matches_sequence initial"
    by (simp add: set_matches_sequence_def initial_def)
  show "set_matches_sequence (startHarvesting cl p s)"
    by (simp add: set_matches_sequence_def start_addresses)
next
  assume inv: "set_matches_sequence s"
  then show "set_matches_sequence (processEvent cl e s)"
    by (rule set_matches_sequence_processEvent)
  from inv show stop: "set_matches_sequence (stopHarvesting cl s)" for cl
    by (simp add: set_matches_sequence_def stop_fields)
  from inv show "set_matches_sequence (timeout_fires cl s)"
    by (simp add: set_matches_sequence_def timeout_fires_def stop_fields)
  from inv show "set_matches_sequence (interval_tick now s)"
    by (simp add: set_matches_sequence_def interval_tick_def Let_def split: option.splits)
  from inv show "set_matches_sequence (grace_fires s)"
    by (simp add: set_matches_sequence_def grace_fires_def)
  from inv stop show "set_matches_sequence (unmount s)"
    by (simp add: unmount_def effect_cleanup_def)
qed

text \<open>The theorem at the example session and an event with a new address.\<close>

theorem set_matches_sequence_invariant_witness:
  "set_matches_sequence running_example
   \<and> set_matches_sequence
        (processEvent (render initial) (profile_event (js ''alice@example.com'')) running_example)
   \<and> foundAddresses
        (processEvent (render initial) (profile_event (js ''alice@example.com'')) running_example)
       = [js ''alice@example.com'']
   \<and> set_matches_sequence (stopHarvesting (render initial) running_example)"
proof -
  note inst = set_matches_sequence_invariant
    [of "render initial" example_platform running_example
        "profile_event (js ''alice@example.com'')" 0]
  have "foundAddresses
        (processEvent (render initial) (profile_event (js ''alice@example.com'')) running_example)
       = [js ''alice@example.com'']"
    by (simp add: processEvent_carrying [OF profile_event_carries valid_alice]
        running_example_fields fcard_finsert_if fcard_fempty MAX_ADDRESSES_def)
  with inst running_example_matches show ?thesis by blast
qed

section \<open>Starting without endpoints\<close>

text \<open>
  C7. When the input parses to no endpoint, start ends with the status
  \<^verbatim>\<open>Error: No valid relay URLs provided\<close>, the session is not running, and nothing is
  opened: no call is made to the pool or to the timers, and the pool, subscription and
  timer cells are as before.
\<close>

theorem start_without_endpoints:
  assumes "parseRelays (c_relayInput cl) = []"
  shows "statusMessage (startHarvesting cl p s) = js ''Error: No valid relay URLs provided''
     \<and> \<not> isRunning (startHarvesting cl p s)
     \<and> effects (startHarvesting cl p s) = effects s
     \<and> poolRef (startHarvesting cl p s) = poolRef s
     \<and> subIdRef (startHarvesting cl p s) = subIdRef s
     \<and> timeoutIdRef (startHarvesting cl p s) = timeoutIdRef s
     \<and> intervalIdRef (startHarvesting cl p s) = intervalIdRef s"
  by (simp add: start_empty [OF assms])

text \<open>Scenario B: the empty input parses to no endpoint, and start fails with it.\<close>

theorem start_without_endpoints_witness:
  "parseRelays [] = []
   \<and> c_relayInput empty_input = []
   \<and> statusMessage failed_start_example = js ''Error: No valid relay URLs provided''
   \<and> \<not> isRunning failed_start_example
   \<and> effects failed_start_example = []
   \<and> poolRef failed_start_example = None
   \<and> subIdRef failed_start_example = None"
  using start_without_endpoints [OF empty_input_no_endpoints, of example_platform initial]
  by (simp add: failed_start_example_def parse_empty) (simp add: initial_def empty_input_def render_def)

text \<open>
  C10. A start whose input parses to no endpoint still empties the address set and the
  address sequence of the run before, although the session does not run.
\<close>

theorem failed_start_clears_addresses:
  assumes "parseRelays (c_relayInput cl) = []"
  shows "addressSetRef (startHarvesting cl p s) = {||}
     \<and> foundAddresses (startHarvesting cl p s) = []
     \<and> \<not> isRunning (startHarvesting cl p s)"
  by (simp add: start_empty [OF assms])

text \<open>
  The theorem at the stopped example session with its twenty-one addresses and the
  empty input.
\<close>

theorem failed_start_clears_addresses_witness:
  "parseRelays (c_relayInput empty_input) = []
   \<and> fcard (addressSetRef full_example) = 21
   \<and> addressSetRef (startHarvesting empty_input example_platform full_example) = {||}
   \<and> foundAddresses (startHarvesting empty_input example_platform full_example) = []
   \<and> \<not> isRunning (startHarvesting empty_input example_platform full_example)"
  using failed_start_clears_addresses [OF empty_input_no_endpoints, of example_platform full_example]
  by (simp add: empty_input_no_endpoints full_example_fields)

section \<open>Stopping\<close>

lemma stop_pool_released:
  "\<not> (poolRef (stopHarvesting cl s) \<noteq> None \<and> truthy_string (subIdRef (stopHarvesting cl s)))"
  by (simp add: stopHarvesting_def Let_def split: option.splits)

lemma stop_fixed:
  assumes "\<not> isRunning s" "statusMessage s = js ''Stopped''"
    "timeoutIdRef s = None" "intervalIdRef s = None"
    "\<not> (poolRef s \<noteq> None \<and> truthy_string (subIdRef s))"
    "startTimeRef s = None" "timeRemaining s = None"
  shows "stopHarvesting cl s = s"
proof (rule harvester.equality)
qed (use assms in \<open>auto simp: stopHarvesting_def Let_def\<close>)

text \<open>
  C8, as the code has it. Stop is idempotent: on a state that a call of stop has left,
  another call of stop changes nothing, neither in the state (running flag, status
  message, addresses, remaining time, timers, pool and subscription) nor in the log of
  external calls. The second part names the states on which stop changes nothing at all:
  the session is not running, shows the status \<^verbatim>\<open>Stopped\<close>, and has no timer, no open
  subscription, no start time and no remaining time.
\<close>

theorem stop_after_stop:
  "stopHarvesting cl' (stopHarvesting cl s) = stopHarvesting cl s
   \<and> (stopHarvesting cl s = s \<longleftrightarrow>
        \<not> isRunning s \<and> statusMessage s = js ''Stopped''
        \<and> timeoutIdRef s = None \<and> intervalIdRef s = None
        \<and> \<not> (poolRef s \<noteq> None \<and> truthy_string (subIdRef s))
        \<and> startTimeRef s = None \<and> timeRemaining s = None)"
proof
  show "stopHarvesting cl' (stopHarvesting cl s) = stopHarvesting cl s"
    using stop_pool_released [of cl s]
    by (intro stop_fixed) (auto simp: stop_fields)
next
  show "stopHarvesting cl s = s \<longleftrightarrow>
        \<not> isRunning s \<and> statusMessage s = js ''Stopped''
        \<and> timeoutIdRef s = None \<and> intervalIdRef s = None
        \<and> \<not> (poolRef s \<noteq> None \<and> truthy_string (subIdRef s))
        \<and> startTimeRef s = None \<and> timeRemaining s = None"
  proof
    assume same: "stopHarvesting cl s = s"
    from stop_fields [of cl s] stop_pool_released [of cl s]
    show "\<not> isRunning s \<and> statusMessage s = js ''Stopped''
        \<and> timeoutIdRef s = None \<and> intervalIdRef s = None
        \<and> \<not> (poolRef s \<noteq> None \<and> truthy_string (subIdRef s))
        \<and> startTimeRef s = None \<and> timeRemaining s = None"
      unfolding same by simp
  next
    assume "\<not> isRunning s \<and> statusMessage s = js ''Stopped''
        \<and> timeoutIdRef s = None \<and> intervalIdRef s = None
        \<and> \<not> (poolRef s \<noteq> None \<and> truthy_string (subIdRef s))
        \<and> startTimeRef s = None \<and> timeRemaining s = None"
    then show "stopHarvesting cl s = s"
      by (intro stop_fixed) simp_all
  qed
qed

text \<open>
  C8, as the specification words it, fails. stopHarvesting does not test the running
  flag and always writes the status \<^verbatim>\<open>Stopped\<close>. After a failed start the session is
  not running, shows the error status and still holds the start time: stop replaces the
  status and clears the start time. On the freshly mounted component, which is not
  running either, stop replaces the status \<^verbatim>\<open>Ready to start\<close>.
\<close>

theorem stop_when_not_running_counterexample:
  "\<not> isRunning failed_start_example
   \<and> statusMessage failed_start_example = js ''Error: No valid relay URLs provided''
   \<and> statusMessage (stopHarvesting (render initial) failed_start_example) = js ''Stopped''
   \<and> startTimeRef failed_start_example = Some 1000
   \<and> startTimeRef (stopHarvesting (render initial) failed_start_example) = None
   \<and> stopHarvesting (render initial) failed_start_example \<noteq> failed_start_example
   \<and> \<not> isRunning initial
   \<and> statusMessage initial = js ''Ready to start''
   \<and> statusMessage (stopHarvesting (render initial) initial) = js ''Stopped''
   \<and> stopHarvesting (render initial) initial \<noteq> initial"
proof -
  have a: "\<not> isRunning failed_start_example"
    and b: "statusMessage failed_start_example = js ''Error: No valid relay URLs provided''"
    and t: "startTimeRef failed_start_example = Some 1000"
    by (simp_all add: failed_start_example_def start_empty [OF empty_input_no_endpoints]
        example_platform_def)
  have c: "statusMessage (stopHarvesting (render initial) failed_start_example) = js ''Stopped''"
    and u: "startTimeRef (stopHarvesting (render initial) failed_start_example) = None"
    by (simp_all add: stop_fields)
  have d: "stopHarvesting (render initial) failed_start_example \<noteq> failed_start_example"
    using t u by (metis option.distinct(1))
  have e: "\<not> isRunning initial" and f: "statusMessage initial = js ''Ready to start''"
    by (simp_all add: initial_def)
  have g: "statusMessage (stopHarvesting (render initial) initial) = js ''Stopped''"
    by (simp add: stop_fields)
  have "js ''Stopped'' \<noteq> js ''Ready to start''"
    by (simp add: js_def)
  with f g have h: "stopHarvesting (render initial) initial \<noteq> initial" by metis
  from a b c t u d e f g h show ?thesis by blast
qed

text \<open>
  C3. The timeout callback sets the status \<^verbatim>\<open>Timeout reached\<close> and calls stopHarvesting,
  which sets the status \<^verbatim>\<open>Stopped\<close> itself. So a timeout leaves exactly the state that a
  stop by the user leaves, status included, and the session stopped at the goal shows
  \<^verbatim>\<open>Stopped\<close> as well: the status after a stop does not tell the reason.
\<close>

theorem timeout_message_overwritten:
  "isRunning running_example
   \<and> timeout_fires (render initial) running_example
       = stopHarvesting (render initial) running_example
   \<and> statusMessage (timeout_fires (render initial) running_example) = js ''Stopped''
   \<and> statusMessage full_example = js ''Stopped''
   \<and> timeout_fires cl s = stopHarvesting cl s"
  by (simp add: timeout_fires_def stop_ignores_message stop_fields running_example_fields
      full_example_stopped)

section \<open>Unmounting a running session\<close>

text \<open>
  C4. The cleanup of the effect tests the \<^verbatim>\<open>isRunning\<close> of the first render, which is
  \<^verbatim>\<open>false\<close>. Unmounting therefore changes nothing: the running example session keeps
  its two timers, its pool and its subscription.
\<close>

theorem unmount_does_not_stop:
  "isRunning running_example
   \<and> unmount running_example = running_example
   \<and> timeoutIdRef (unmount running_example) = Some (Timer 1)
   \<and> intervalIdRef (unmount running_example) = Some (Timer 2)
   \<and> poolRef (unmount running_example) = Some SimplePool
   \<and> subIdRef (unmount running_example) = Some (js ''active'')
   \<and> unmount s = s"
proof -
  have "unmount s = s" for s
    by (simp add: unmount_def effect_cleanup_def render_def initial_def)
  then show ?thesis by (simp add: running_example_fields)
qed

end
